theory Spec2Isabelle
  imports Complex_Main
begin

section \<open>Row-wise softmax with an occupancy-aware launch (day42/tlfsoftmax.py)\<close>

text \<open>
  The program has a device kernel \<open>_softmax_kernel\<close> and a host wrapper \<open>softmax\<close>.
  Sizes, strides, counts, device limits and buffer offsets are non-negative integers and
  are modelled as \<open>nat\<close>; none of them is ever subtracted. Floating-point numbers are
  modelled as exact reals extended by the three special values a float can take:
  there is no rounding and no overflow in the model.
\<close>

subsection \<open>Floating-point values\<close>

datatype fl = NInf | Fin real | PInf | NaN

fun fsub :: "fl \<Rightarrow> fl \<Rightarrow> fl" where
  "fsub NaN _ = NaN"
| "fsub _ NaN = NaN"
| "fsub (Fin a) (Fin b) = Fin (a - b)"
| "fsub (Fin _) NInf = PInf"
| "fsub (Fin _) PInf = NInf"
| "fsub NInf NInf = NaN"
| "fsub NInf _ = NInf"
| "fsub PInf PInf = NaN"
| "fsub PInf _ = PInf"

fun fadd :: "fl \<Rightarrow> fl \<Rightarrow> fl" where
  "fadd NaN _ = NaN"
| "fadd _ NaN = NaN"
| "fadd (Fin a) (Fin b) = Fin (a + b)"
| "fadd (Fin _) NInf = NInf"
| "fadd (Fin _) PInf = PInf"
| "fadd NInf PInf = NaN"
| "fadd NInf _ = NInf"
| "fadd PInf NInf = NaN"
| "fadd PInf _ = PInf"

fun fexp :: "fl \<Rightarrow> fl" where
  "fexp NaN = NaN"
| "fexp NInf = Fin 0"
| "fexp PInf = PInf"
| "fexp (Fin a) = Fin (exp a)"

text \<open>Division; a zero divisor is taken as positive zero.\<close>

fun fdiv :: "fl \<Rightarrow> fl \<Rightarrow> fl" where
  "fdiv NaN _ = NaN"
| "fdiv _ NaN = NaN"
| "fdiv (Fin a) (Fin b) =
     (if b = 0 then (if a = 0 then NaN else if 0 < a then PInf else NInf)
      else Fin (a / b))"
| "fdiv (Fin _) _ = Fin 0"
| "fdiv NInf (Fin b) = (if 0 \<le> b then NInf else PInf)"
| "fdiv PInf (Fin b) = (if 0 \<le> b then PInf else NInf)"
| "fdiv _ _ = NaN"

text \<open>
  Maximum. The source does not fix what \<open>tl.max\<close> does with a NaN operand; the model
  propagates it.
\<close>

fun fmax :: "fl \<Rightarrow> fl \<Rightarrow> fl" where
  "fmax NaN _ = NaN"
| "fmax _ NaN = NaN"
| "fmax NInf y = y"
| "fmax x NInf = x"
| "fmax PInf _ = PInf"
| "fmax _ PInf = PInf"
| "fmax (Fin a) (Fin b) = Fin (max a b)"

text \<open>\<open>tl.max(row, axis=0)\<close> and \<open>tl.sum(numerator, axis=0)\<close>: reductions of a block of lanes.\<close>

definition tl_max :: "fl list \<Rightarrow> fl" where
  "tl_max row = fold fmax row NInf"

definition tl_sum :: "fl list \<Rightarrow> fl" where
  "tl_sum row = fold fadd row (Fin 0)"

subsection \<open>Tensors and kernel arguments\<close>

text \<open>
  A tensor is its shape, its leading stride \<open>x.stride(0)\<close> and its storage, indexed by the
  element offset from the data pointer. The kernel addresses column \<open>c\<close> of a row at
  offset \<open>c\<close> from the row start, so element \<open>(i, j)\<close> is the one at \<open>i * stride0 + j\<close>.
\<close>

record tensor =
  shape :: "nat list"
  stride0 :: nat
  buf :: "nat \<Rightarrow> fl"

definition elem :: "tensor \<Rightarrow> nat \<Rightarrow> nat \<Rightarrow> fl" where
  "elem t i j = buf t (i * stride0 t + j)"

text \<open>The arguments and compile-time constants of \<open>_softmax_kernel\<close> (the two pointers apart).\<close>

record kernel_args =
  input_row_stride :: nat
  output_row_stride :: nat
  n_rows :: nat
  n_cols :: nat
  BLOCK_SIZE :: nat
  num_stages :: nat
  num_wraps :: nat

subsection \<open>The kernel\<close>

definition tl_arange :: "nat \<Rightarrow> nat \<Rightarrow> nat list" where
  "tl_arange a b = [a..<b]"

text \<open>A masked load reads memory only at the lanes whose mask is set; the others get \<open>other\<close>.\<close>

definition tl_load :: "(nat \<Rightarrow> fl) \<Rightarrow> nat list \<Rightarrow> bool list \<Rightarrow> fl \<Rightarrow> fl list" where
  "tl_load mem ptrs msk other = map (\<lambda>(p, b). if b then mem p else other) (zip ptrs msk)"

text \<open>A masked store writes memory only at the lanes whose mask is set.\<close>

definition tl_store :: "(nat \<Rightarrow> fl) \<Rightarrow> nat list \<Rightarrow> fl list \<Rightarrow> bool list \<Rightarrow> (nat \<Rightarrow> fl)" where
  "tl_store mem ptrs vals msk =
     fold (\<lambda>(p, v, b) m. if b then m(p := v) else m) (zip ptrs (zip vals msk)) mem"


text \<open>
  \<open>tl.range(row_start, n_rows, row_step)\<close>: the rows of one kernel instance. The step is
  the grid size, which is at least one in every running instance; a zero step yields no row
  in the model.
\<close>

function tl_range :: "nat \<Rightarrow> nat \<Rightarrow> nat \<Rightarrow> nat list" where
  "tl_range i n s = (if s = 0 \<or> n \<le> i then [] else i # tl_range (i + s) n s)"
  by pat_completeness auto
termination
  by (relation "measure (\<lambda>(i, n, s). n - i)") auto

declare tl_range.simps [simp del]

text \<open>The column offsets, the mask and the loaded row of one loop iteration (lines 21 to 30).\<close>

definition col_offsets :: "kernel_args \<Rightarrow> nat list" where
  "col_offsets a = tl_arange 0 (BLOCK_SIZE a)"

definition mask_of :: "kernel_args \<Rightarrow> bool list" where
  "mask_of a = map (\<lambda>c. c < n_cols a) (col_offsets a)"

definition input_ptrs :: "kernel_args \<Rightarrow> nat \<Rightarrow> nat list" where
  "input_ptrs a row_idx =
     (let row_start_ptr = row_idx * input_row_stride a
      in map (\<lambda>c. row_start_ptr + c) (col_offsets a))"

definition load_row :: "kernel_args \<Rightarrow> (nat \<Rightarrow> fl) \<Rightarrow> nat \<Rightarrow> fl list" where
  "load_row a xin row_idx = tl_load xin (input_ptrs a row_idx) (mask_of a) NInf"

text \<open>The arithmetic on the loaded block (lines 33 to 38).\<close>

definition numerator :: "fl list \<Rightarrow> fl list" where
  "numerator row =
     (let row_minus_max = map (\<lambda>v. fsub v (tl_max row)) row
      in map fexp row_minus_max)"

definition denominator :: "fl list \<Rightarrow> fl" where
  "denominator row = tl_sum (numerator row)"

definition softmax_output :: "fl list \<Rightarrow> fl list" where
  "softmax_output row = map (\<lambda>v. fdiv v (denominator row)) (numerator row)"

definition output_ptrs :: "kernel_args \<Rightarrow> nat \<Rightarrow> nat list" where
  "output_ptrs a row_idx =
     (let output_row_start_ptr = row_idx * output_row_stride a
      in map (\<lambda>c. output_row_start_ptr + c) (col_offsets a))"

text \<open>One iteration of the loop: \<open>xin\<close> is the input buffer, \<open>yout\<close> the output buffer.\<close>

definition process_row :: "kernel_args \<Rightarrow> (nat \<Rightarrow> fl) \<Rightarrow> nat \<Rightarrow> (nat \<Rightarrow> fl) \<Rightarrow> (nat \<Rightarrow> fl)" where
  "process_row a xin row_idx yout =
     tl_store yout (output_ptrs a row_idx) (softmax_output (load_row a xin row_idx)) (mask_of a)"

text \<open>One kernel instance: \<open>pid\<close> is \<open>tl.program_id(0)\<close>, \<open>nprog\<close> is \<open>tl.num_programs(0)\<close>.\<close>

definition softmax_kernel ::
  "kernel_args \<Rightarrow> (nat \<Rightarrow> fl) \<Rightarrow> nat \<Rightarrow> nat \<Rightarrow> (nat \<Rightarrow> fl) \<Rightarrow> (nat \<Rightarrow> fl)" where
  "softmax_kernel a xin pid nprog yout =
     (let row_start = pid; row_step = nprog
      in fold (process_row a xin) (tl_range row_start (n_rows a) row_step) yout)"

text \<open>
  A launch with grid \<open>(nprog, 1, 1)\<close> runs the instances \<open>0, ..., nprog - 1\<close>; an empty grid
  runs none. The instances are independent; the model runs them in the order of their ids.
\<close>

definition launch :: "kernel_args \<Rightarrow> nat \<Rightarrow> (nat \<Rightarrow> fl) \<Rightarrow> (nat \<Rightarrow> fl) \<Rightarrow> (nat \<Rightarrow> fl)" where
  "launch a nprog xin yout = fold (\<lambda>pid. softmax_kernel a xin pid nprog) [0..<nprog] yout"

subsection \<open>The host wrapper\<close>

text \<open>
  The module reads the device properties once, when it is loaded (line 46); \<open>softmax\<close> uses
  the values read then. \<open>warmup\<close> compiles the kernel and reports its register and shared
  memory use; it is a parameter of the model, as is what \<open>torch.empty_like\<close> allocates.
\<close>

record device_properties =
  multiprocessor_count :: nat
  max_num_regs :: nat
  max_shared_mem :: nat
  warpSize :: nat

record compiled_kernel =
  n_regs :: nat
  shared :: nat

datatype error = AssertionError | ZeroDivisionError

datatype event =
    GetDeviceProperties
  | EmptyLike
  | Warmup kernel_args
  | InitHandles
  | Launch nat

definition module_load :: "device_properties \<Rightarrow> event list \<times> device_properties" where
  "module_load device = ([GetDeviceProperties], device)"

text \<open>
  Modelled from the spec: \<open>triton.next_power_of_2\<close> is library code that is not part of
  the repository; the spec describes it as the smallest power of two greater than or equal
  to its argument. The model doubles from one until the argument is reached.
\<close>

function next_power_of_2_from :: "nat \<Rightarrow> nat \<Rightarrow> nat" where
  "next_power_of_2_from p n = (if n \<le> p \<or> p = 0 then p else next_power_of_2_from (2 * p) n)"
  by pat_completeness auto
termination
  by (relation "measure (\<lambda>(p, n). n - p)") auto

declare next_power_of_2_from.simps [simp del]

definition next_power_of_2 :: "nat \<Rightarrow> nat" where
  "next_power_of_2 n = next_power_of_2_from 1 n"

text \<open>Lines 61 to 65.\<close>

definition choose_num_wraps :: "nat \<Rightarrow> nat" where
  "choose_num_wraps block_size =
     (let w = 4;
          w = (if block_size \<ge> 2048 then 8 else w);
          w = (if block_size \<ge> 4096 then 16 else w)
      in w)"

text \<open>Line 67.\<close>

definition choose_num_stages :: "device_properties \<Rightarrow> nat" where
  "choose_num_stages props = (if max_shared_mem props > 200000 then 4 else 2)"

text \<open>Python's \<open>//\<close> on non-negative integers.\<close>

definition floordiv :: "nat \<Rightarrow> nat \<Rightarrow> error + nat" where
  "floordiv a b = (if b = 0 then Inl ZeroDivisionError else Inr (a div b))"

text \<open>Lines 86 to 93: the occupancy arithmetic.\<close>

definition programs_per_sm :: "device_properties \<Rightarrow> compiled_kernel \<Rightarrow> nat \<Rightarrow> error + nat" where
  "programs_per_sm props ker wraps =
     (case floordiv (max_num_regs props) (n_regs ker * warpSize props * wraps) of
        Inl e \<Rightarrow> Inl e
      | Inr reg_occupancy \<Rightarrow>
          (case floordiv (max_shared_mem props) (shared ker) of
             Inl e \<Rightarrow> Inl e
           | Inr sram_occupancy \<Rightarrow> Inr (min reg_occupancy sram_occupancy)))"

definition num_programs :: "device_properties \<Rightarrow> compiled_kernel \<Rightarrow> nat \<Rightarrow> nat \<Rightarrow> error + nat" where
  "num_programs props ker wraps rows =
     (case programs_per_sm props ker wraps of
        Inl e \<Rightarrow> Inl e
      | Inr per_sm \<Rightarrow> Inr (min (multiprocessor_count props * per_sm) rows))"

text \<open>\<open>torch.empty_like(x)\<close>: the shape of \<open>x\<close>; the stride and the contents are the allocator's.\<close>

definition empty_like :: "tensor \<Rightarrow> nat \<Rightarrow> (nat \<Rightarrow> fl) \<Rightarrow> tensor" where
  "empty_like x ystride garbage = \<lparr>shape = shape x, stride0 = ystride, buf = garbage\<rparr>"

text \<open>The arguments the wrapper passes to \<open>warmup\<close> and to the launch.\<close>

definition args_of :: "device_properties \<Rightarrow> tensor \<Rightarrow> tensor \<Rightarrow> kernel_args" where
  "args_of props x y =
     (let rows = shape x ! 0; cols = shape x ! 1;
          block_size = next_power_of_2 cols
      in \<lparr>input_row_stride = stride0 x, output_row_stride = stride0 y,
          n_rows = rows, n_cols = cols, BLOCK_SIZE = block_size,
          num_stages = choose_num_stages props,
          num_wraps = choose_num_wraps block_size\<rparr>)"

text \<open>The planner: what the wrapper computes before the launch.\<close>

definition plan ::
  "device_properties \<Rightarrow> (kernel_args \<Rightarrow> compiled_kernel) \<Rightarrow> tensor \<Rightarrow> tensor \<Rightarrow> error + nat" where
  "plan props warmup x y =
     (let a = args_of props x y; ker = warmup a
      in num_programs props ker (num_wraps a) (n_rows a))"

text \<open>
  \<open>softmax(x)\<close>: the events it performs, and the error it raises or the tensor it returns.
\<close>

definition softmax ::
  "device_properties \<Rightarrow> (kernel_args \<Rightarrow> compiled_kernel) \<Rightarrow> nat \<Rightarrow> (nat \<Rightarrow> fl) \<Rightarrow> tensor
     \<Rightarrow> event list \<times> (error + tensor)" where
  "softmax props warmup ystride garbage x =
     (if length (shape x) \<noteq> 2 then ([], Inl AssertionError)
      else
        let y = empty_like x ystride garbage;
            a = args_of props x y;
            ev = [EmptyLike, Warmup a, InitHandles]
        in (case plan props warmup x y of
              Inl e \<Rightarrow> (ev, Inl e)
            | Inr grid \<Rightarrow>
                (ev @ [Launch grid], Inr (y\<lparr>buf := launch a grid (buf x) (buf y)\<rparr>))))"

subsection \<open>The reference softmax of a row of reals\<close>

definition ref_softmax :: "real list \<Rightarrow> real list" where
  "ref_softmax xs =
     map (\<lambda>v. exp (v - Max (set xs)) / (\<Sum>u\<leftarrow>xs. exp (u - Max (set xs)))) xs"

subsection \<open>Concrete inputs\<close>

definition dev108 :: device_properties where
  "dev108 = \<lparr>multiprocessor_count = 108, max_num_regs = 65536,
              max_shared_mem = 166912, warpSize = 32\<rparr>"

definition warm32 :: "kernel_args \<Rightarrow> compiled_kernel" where
  "warm32 a = \<lparr>n_regs = 32, shared = 1024\<rparr>"

definition warm255 :: "kernel_args \<Rightarrow> compiled_kernel" where
  "warm255 a = \<lparr>n_regs = 255, shared = 1024\<rparr>"

definition warm_noshared :: "kernel_args \<Rightarrow> compiled_kernel" where
  "warm_noshared a = \<lparr>n_regs = 32, shared = 0\<rparr>"

definition warm_staged :: "kernel_args \<Rightarrow> compiled_kernel" where
  "warm_staged a = \<lparr>n_regs = 32, shared = (if num_stages a = 4 then 100000 else 50000)\<rparr>"

definition zeros :: "nat \<Rightarrow> nat \<Rightarrow> tensor" where
  "zeros r c = \<lparr>shape = [r, c], stride0 = c, buf = (\<lambda>_. Fin 0)\<rparr>"

definition nans :: "nat \<Rightarrow> fl" where
  "nans p = NaN"

definition args_2x3 :: kernel_args where
  "args_2x3 = \<lparr>input_row_stride = 4, output_row_stride = 4, n_rows = 2, n_cols = 3,
                BLOCK_SIZE = 4, num_stages = 2, num_wraps = 4\<rparr>"


section \<open>The launch planner\<close>

subsection \<open>Block size\<close>

lemma next_power_of_2_from_ge: "0 < p \<Longrightarrow> n \<le> next_power_of_2_from p n"
proof (induction p n rule: next_power_of_2_from.induct)
  case (1 p n)
  then show ?case by (subst next_power_of_2_from.simps) simp
qed

lemma next_power_of_2_from_is_power: "\<exists>j. next_power_of_2_from (2 ^ k) n = 2 ^ j"
proof (induction "2 ^ k :: nat" n arbitrary: k rule: next_power_of_2_from.induct)
  case (1 n)
  show ?case
  proof (cases "n \<le> 2 ^ k")
    case True
    then show ?thesis by (subst next_power_of_2_from.simps) auto
  next
    case False
    then have "\<exists>j. next_power_of_2_from (2 ^ Suc k) n = 2 ^ j"
      using 1(1)[of "Suc k"] by simp
    then show ?thesis using False by (subst next_power_of_2_from.simps) simp
  qed
qed

lemma next_power_of_2_from_least:
  "2 ^ k \<le> (2::nat) ^ j \<Longrightarrow> n \<le> 2 ^ j \<Longrightarrow> next_power_of_2_from (2 ^ k) n \<le> 2 ^ j"
proof (induction "2 ^ k :: nat" n arbitrary: k rule: next_power_of_2_from.induct)
  case (1 n)
  show ?case
  proof (cases "n \<le> 2 ^ k")
    case True
    then show ?thesis using 1(2) by (subst next_power_of_2_from.simps) auto
  next
    case False
    then have "(2::nat) ^ k < 2 ^ j" using 1(3) by linarith
    then have "k < j" by simp
    then have "(2::nat) ^ Suc k \<le> 2 ^ j"
      by (metis Suc_leI one_le_numeral power_increasing)
    then have "next_power_of_2_from (2 ^ Suc k) n \<le> 2 ^ j"
      using 1(1)[of "Suc k"] False 1(3) by simp
    then show ?thesis using False by (subst next_power_of_2_from.simps) simp
  qed
qed

lemma next_power_of_2_8: "next_power_of_2 8 = 8"
  by (simp add: next_power_of_2_def next_power_of_2_from.simps)

lemma next_power_of_2_781: "next_power_of_2 781 = 1024"
  by (simp add: next_power_of_2_def next_power_of_2_from.simps)

lemma next_power_of_2_ge: "n \<le> next_power_of_2 n"
  by (simp add: next_power_of_2_def next_power_of_2_from_ge)

lemma BLOCK_SIZE_args_of: "BLOCK_SIZE (args_of props x y) = next_power_of_2 (shape x ! 1)"
  by (simp add: args_of_def Let_def)

lemma n_cols_args_of: "n_cols (args_of props x y) = shape x ! 1"
  by (simp add: args_of_def Let_def)

lemma n_rows_args_of: "n_rows (args_of props x y) = shape x ! 0"
  by (simp add: args_of_def Let_def)

text \<open>
  Claim C8. For every column count \<open>n_cols = x.shape[1]\<close>, which is the column count the
  planner passes on, the block size the planner chooses is a power of two, is at least
  \<open>n_cols\<close>, and is at most every power of two that is at least \<open>n_cols\<close>: it is the
  smallest power of two greater than or equal to \<open>n_cols\<close>.
\<close>

theorem C8_block_size:
  "n_cols (args_of props x y) = shape x ! 1
   \<and> (\<exists>k. BLOCK_SIZE (args_of props x y) = 2 ^ k)
   \<and> shape x ! 1 \<le> BLOCK_SIZE (args_of props x y)
   \<and> (\<forall>j. shape x ! 1 \<le> 2 ^ j \<longrightarrow> BLOCK_SIZE (args_of props x y) \<le> 2 ^ j)"
proof (intro conjI allI impI)
  show "n_cols (args_of props x y) = shape x ! 1"
    by (rule n_cols_args_of)
next
  show "\<exists>k. BLOCK_SIZE (args_of props x y) = 2 ^ k"
    unfolding BLOCK_SIZE_args_of next_power_of_2_def
    using next_power_of_2_from_is_power [of 0] by simp
next
  show "shape x ! 1 \<le> BLOCK_SIZE (args_of props x y)"
    unfolding BLOCK_SIZE_args_of by (rule next_power_of_2_ge)
next
  fix j
  assume "shape x ! 1 \<le> 2 ^ j"
  then have "next_power_of_2_from (2 ^ 0) (shape x ! 1) \<le> 2 ^ j"
    by (intro next_power_of_2_from_least) simp_all
  then show "BLOCK_SIZE (args_of props x y) \<le> 2 ^ j"
    unfolding BLOCK_SIZE_args_of next_power_of_2_def by simp
qed

theorem C8_block_size_witness:
  "shape (zeros 1823 781) ! 1 = 781
   \<and> n_cols (args_of dev108 (zeros 1823 781) (zeros 1823 781)) = 781
   \<and> BLOCK_SIZE (args_of dev108 (zeros 1823 781) (zeros 1823 781)) = 1024"
proof -
  let ?B = "BLOCK_SIZE (args_of dev108 (zeros 1823 781) (zeros 1823 781))"
  have s: "shape (zeros 1823 781) ! 1 = 781" by (simp add: zeros_def)
  note c = C8_block_size [of dev108 "zeros 1823 781" "zeros 1823 781", unfolded s]
  from c have n: "n_cols (args_of dev108 (zeros 1823 781) (zeros 1823 781)) = 781"
    by (rule conjunct1)
  from c obtain k where k: "?B = 2 ^ k"
    by (elim conjE exE)
  from c have ge: "781 \<le> ?B"
    by (rule conjunct2 [THEN conjunct2, THEN conjunct1])
  from c have a: "\<forall>j. 781 \<le> (2::nat) ^ j \<longrightarrow> ?B \<le> 2 ^ j"
    by (rule conjunct2 [THEN conjunct2, THEN conjunct2])
  from a have "781 \<le> (2::nat) ^ 10 \<longrightarrow> ?B \<le> 2 ^ 10"
    by (rule spec)
  then have le: "?B \<le> 2 ^ 10" by simp
  have "(2::nat) ^ k \<le> 2 ^ 10" using le k by simp
  then have k10: "k \<le> 10" by (rule power_le_imp_le_exp [rotated]) simp
  have "(2::nat) ^ 9 < 2 ^ k" using ge k by simp
  then have "9 < k" by (rule power_less_imp_less_exp [rotated]) simp
  with k10 have "k = 10" by simp
  with k have "?B = 1024" by simp
  with s n show ?thesis by (intro conjI)
qed

subsection \<open>Concurrency width\<close>


subsection \<open>Occupancy arithmetic\<close>

lemma num_programs_ok:
  "n_regs k * warpSize props * w \<noteq> 0 \<Longrightarrow> shared k \<noteq> 0 \<Longrightarrow>
   num_programs props k w rows =
     Inr (min (multiprocessor_count props *
               min (max_num_regs props div (n_regs k * warpSize props * w))
                   (max_shared_mem props div shared k)) rows)"
  by (simp add: num_programs_def programs_per_sm_def floordiv_def)

lemma num_programs_err:
  "n_regs k * warpSize props * w = 0 \<or> shared k = 0 \<Longrightarrow>
   num_programs props k w rows = Inl ZeroDivisionError"
  by (auto simp add: num_programs_def programs_per_sm_def floordiv_def)

lemma num_programs_Inr_iff:
  "(\<exists>np. num_programs props k w rows = Inr np) \<longleftrightarrow>
   (n_regs k * warpSize props * w \<noteq> 0 \<and> shared k \<noteq> 0)"
  by (auto simp add: num_programs_def programs_per_sm_def floordiv_def
      split: sum.splits if_splits)

lemma num_programs_le: "num_programs props k w rows = Inr np \<Longrightarrow> np \<le> rows"
  by (auto simp add: num_programs_def split: sum.splits)

text \<open>
  Claim C3, as stated, fails: a footprint with no shared memory makes the second division
  raise \<open>ZeroDivisionError\<close>, so the planner computes no number of programs.
\<close>

theorem C3_counterexample:
  "plan dev108 warm_noshared (zeros 1823 781) (zeros 1823 781) = Inl ZeroDivisionError"
  by (simp add: plan_def Let_def num_programs_err warm_noshared_def)

text \<open>
  Claim C3, amended. Whenever neither divisor is zero, the planner computes
  \<open>num_programs = min (num_compute_units * instances_per_unit) n_rows\<close> with
  \<open>instances_per_unit\<close> the smaller of the two integer quotients, and the result is at
  most \<open>n_rows\<close>.
\<close>

theorem C3_num_programs:
  assumes "a = args_of props x y" and "k = warmup a"
    and "n_regs k * warpSize props * num_wraps a \<noteq> 0" and "shared k \<noteq> 0"
  shows "plan props warmup x y =
           Inr (min (multiprocessor_count props *
                     min (max_num_regs props div (n_regs k * warpSize props * num_wraps a))
                         (max_shared_mem props div shared k)) (n_rows a))
         \<and> (\<exists>np. plan props warmup x y = Inr np \<and> np \<le> n_rows a)"
  using assms by (simp add: plan_def Let_def num_programs_ok)

theorem C3_num_programs_witness:
  "plan dev108 warm32 (zeros 1823 781) (zeros 1823 781) = Inr 1728"
  using C3_num_programs [of "args_of dev108 (zeros 1823 781) (zeros 1823 781)" dev108
      "zeros 1823 781" "zeros 1823 781" "\<lparr>n_regs = 32, shared = 1024\<rparr>" warm32]
  by (simp add: args_of_def Let_def choose_num_wraps_def next_power_of_2_781
      dev108_def warm32_def zeros_def)

lemma args_of_caps:
  "(200000 < max_shared_mem p) = (200000 < max_shared_mem p') \<Longrightarrow>
   args_of p x y = args_of p' x y"
  by (simp add: args_of_def Let_def choose_num_stages_def)

lemma occ_mono:
  "r \<le> r' \<Longrightarrow> m \<le> m' \<Longrightarrow>
   min (c * min (r div d) (m div s)) n \<le> min (c * min (r' div d) (m' div s)) (n::nat)"
  by (intro min.mono mult_le_mono2 div_le_mono order_refl)

text \<open>
  Claim C4, as stated, fails: the pipeline depth is chosen from the fast memory per unit
  (more than 200000 gives depth 4, else 2) and is an argument of the footprint function.
  Raising the fast memory from 200000 to 200001 changes the depth, and with a footprint
  that needs more shared memory at depth 4 the number of programs drops from 432 to 216.
\<close>

theorem C4_counterexample:
  "plan (dev108\<lparr>max_shared_mem := 200000\<rparr>) warm_staged (zeros 1000 8) (zeros 1000 8) = Inr 432
   \<and> plan (dev108\<lparr>max_shared_mem := 200001\<rparr>) warm_staged (zeros 1000 8) (zeros 1000 8) = Inr 216"
  by (simp add: plan_def Let_def dev108_def warm_staged_def zeros_def args_of_def
      choose_num_stages_def choose_num_wraps_def next_power_of_2_8
      num_programs_def programs_per_sm_def floordiv_def)

text \<open>
  Claim C4, amended. For a fixed matrix and a fixed footprint function, raising the fast
  memory per unit or the registers per unit, with everything else fixed and the fast memory
  staying on the same side of the threshold 200000, never lowers the number of programs:
  if the planner succeeds before, it succeeds after with at least as many programs.
\<close>

theorem C4_monotone:
  assumes regs: "max_num_regs p \<le> max_num_regs p'"
    and mem: "max_shared_mem p \<le> max_shared_mem p'"
    and sm: "multiprocessor_count p' = multiprocessor_count p"
    and warp: "warpSize p' = warpSize p"
    and stages: "(200000 < max_shared_mem p) = (200000 < max_shared_mem p')"
    and ok: "plan p warmup x y = Inr np"
  shows "\<exists>np'. plan p' warmup x y = Inr np' \<and> np \<le> np'"
proof -
  define a where "a = args_of p x y"
  define k where "k = warmup a"
  have a': "args_of p' x y = a" using args_of_caps [OF stages] by (simp add: a_def)
  have np: "num_programs p k (num_wraps a) (n_rows a) = Inr np"
    using ok by (simp add: plan_def Let_def a_def k_def)
  then have nz: "n_regs k * warpSize p * num_wraps a \<noteq> 0" "shared k \<noteq> 0"
    using num_programs_Inr_iff [of p k "num_wraps a" "n_rows a"] by auto
  let ?d = "n_regs k * warpSize p * num_wraps a"
  have e1: "np = min (multiprocessor_count p *
      min (max_num_regs p div ?d) (max_shared_mem p div shared k)) (n_rows a)"
    using np num_programs_ok [OF nz, of "n_rows a"] by simp
  have e2: "plan p' warmup x y = Inr (min (multiprocessor_count p *
      min (max_num_regs p' div ?d) (max_shared_mem p' div shared k)) (n_rows a))"
    using nz num_programs_ok [of k p' "num_wraps a" "n_rows a"]
    by (simp add: plan_def Let_def a' k_def sm warp)
  have "np \<le> min (multiprocessor_count p *
      min (max_num_regs p' div ?d) (max_shared_mem p' div shared k)) (n_rows a)"
    unfolding e1 using regs mem by (rule occ_mono)
  with e2 show ?thesis by simp
qed

theorem C4_monotone_witness:
  "plan dev108 warm32 (zeros 1000 8) (zeros 1000 8) = Inr 1000
   \<and> (\<exists>np'. plan (dev108\<lparr>max_num_regs := 131072\<rparr>) warm32 (zeros 1000 8) (zeros 1000 8) = Inr np'
        \<and> 1000 \<le> np')"
proof -
  have ok: "plan dev108 warm32 (zeros 1000 8) (zeros 1000 8) = Inr 1000"
    by (simp add: plan_def Let_def dev108_def warm32_def zeros_def args_of_def
      choose_num_stages_def choose_num_wraps_def next_power_of_2_8
      num_programs_def programs_per_sm_def floordiv_def)
  show ?thesis
    using ok C4_monotone [of dev108 "dev108\<lparr>max_num_regs := 131072\<rparr>" warm32
        "zeros 1000 8" "zeros 1000 8" 1000]
    by (simp add: dev108_def)
qed

section \<open>What the wrapper does\<close>

subsection \<open>Zero occupancy\<close>

lemma launch_zero: "launch a 0 xin yout = yout"
  by (simp add: launch_def)

lemma next_power_of_2_4096: "next_power_of_2 4096 = 4096"
  by (simp add: next_power_of_2_def next_power_of_2_from.simps)

lemma softmax_zero_occupancy:
  assumes "length (shape x) = 2"
    and "a = args_of props x (empty_like x ystride garbage)"
    and "programs_per_sm props (warmup a) (num_wraps a) = Inr 0"
  shows "softmax props warmup ystride garbage x =
           ([EmptyLike, Warmup a, InitHandles, Launch 0], Inr (empty_like x ystride garbage))"
  using assms
  by (simp add: softmax_def plan_def Let_def num_programs_def launch_zero empty_like_def)

text \<open>
  Claim C2. The claim asks that, when the occupancy per compute unit computes to zero, a
  resource error is raised before any launch and no launch is attempted. The wrapper does
  otherwise: for a 4 by 4096 matrix whose kernel needs 255 registers per thread, the block
  size 4096 gives 16 warps, the register occupancy is \<open>65536 div (255 * 32 * 16) = 0\<close>, and
  the wrapper raises nothing, computes \<open>num_programs = 0\<close>, calls the launch with the grid
  \<open>(0, 1, 1)\<close> and returns the output buffer as it was allocated, no element of it written.
\<close>

theorem C2_empty_launch:
  "softmax dev108 warm255 4096 nans (zeros 4 4096) =
     ([EmptyLike, Warmup (args_of dev108 (zeros 4 4096) (empty_like (zeros 4 4096) 4096 nans)),
       InitHandles, Launch 0],
      Inr (empty_like (zeros 4 4096) 4096 nans))
   \<and> plan dev108 warm255 (zeros 4 4096) (empty_like (zeros 4 4096) 4096 nans) = Inr 0
   \<and> buf (empty_like (zeros 4 4096) 4096 nans) = nans"
proof -
  have occ: "programs_per_sm dev108
          (warm255 (args_of dev108 (zeros 4 4096) (empty_like (zeros 4 4096) 4096 nans)))
          (num_wraps (args_of dev108 (zeros 4 4096) (empty_like (zeros 4 4096) 4096 nans))) = Inr 0"
    by (simp add: programs_per_sm_def floordiv_def dev108_def warm255_def args_of_def Let_def
        zeros_def next_power_of_2_4096 choose_num_wraps_def)
  then have "softmax dev108 warm255 4096 nans (zeros 4 4096) =
     ([EmptyLike, Warmup (args_of dev108 (zeros 4 4096) (empty_like (zeros 4 4096) 4096 nans)),
       InitHandles, Launch 0],
      Inr (empty_like (zeros 4 4096) 4096 nans))"
    by (intro softmax_zero_occupancy) (simp_all add: zeros_def)
  moreover have "plan dev108 warm255 (zeros 4 4096) (empty_like (zeros 4 4096) 4096 nans) = Inr 0"
    using occ by (simp add: plan_def Let_def num_programs_def)
  moreover have "buf (empty_like (zeros 4 4096) 4096 nans) = nans"
    by (simp add: empty_like_def)
  ultimately show ?thesis by (intro conjI)
qed

subsection \<open>No rows\<close>

lemma softmax_no_rows:
  assumes "shape x = [0, c]" and "a = args_of props x (empty_like x ystride garbage)"
  shows "softmax props warmup ystride garbage x =
     (if n_regs (warmup a) * warpSize props * num_wraps a = 0 \<or> shared (warmup a) = 0
      then ([EmptyLike, Warmup a, InitHandles], Inl ZeroDivisionError)
      else ([EmptyLike, Warmup a, InitHandles, Launch 0], Inr (empty_like x ystride garbage)))"
proof (cases "n_regs (warmup a) * warpSize props * num_wraps a = 0 \<or> shared (warmup a) = 0")
  case True
  then have "num_programs props (warmup a) (num_wraps a) (n_rows a) = Inl ZeroDivisionError"
    by (rule num_programs_err)
  then show ?thesis using True assms
    by (simp add: softmax_def plan_def Let_def)
next
  case False
  have "n_rows a = 0" using assms by (simp add: n_rows_args_of)
  then have "num_programs props (warmup a) (num_wraps a) (n_rows a) = Inr 0"
    using False by (simp add: num_programs_ok)
  then show ?thesis using False assms
    by (simp add: softmax_def plan_def Let_def launch_zero empty_like_def)
qed

text \<open>
  Claim C5, as stated, fails: for a matrix with no rows the wrapper still allocates the
  output, compiles the kernel through \<open>warmup\<close>, does the occupancy arithmetic and
  calls the launch.
\<close>

theorem C5_counterexample:
  "softmax dev108 warm32 8 nans (zeros 0 8) =
     ([EmptyLike, Warmup (args_of dev108 (zeros 0 8) (empty_like (zeros 0 8) 8 nans)),
       InitHandles, Launch 0],
      Inr (empty_like (zeros 0 8) 8 nans))"
  using softmax_no_rows [of "zeros 0 8" 8 "args_of dev108 (zeros 0 8) (empty_like (zeros 0 8) 8 nans)"
      dev108 8 nans warm32]
  by (simp add: zeros_def warm32_def dev108_def args_of_def Let_def choose_num_wraps_def
      next_power_of_2_8)

text \<open>
  Claim C5, amended. When \<open>n_rows\<close> is zero, the wrapper makes no device capability query
  (the properties were read when the module was loaded), but it does allocate the output
  and call \<open>warmup\<close>; then either a zero divisor raises \<open>ZeroDivisionError\<close>, or
  \<open>num_programs\<close> is zero, the launch is issued with an empty grid and the output tensor is
  returned as it was allocated.
\<close>

theorem C5_no_rows:
  assumes "shape x = [0, c]" and "a = args_of props x (empty_like x ystride garbage)"
  shows "softmax props warmup ystride garbage x =
     (if n_regs (warmup a) * warpSize props * num_wraps a = 0 \<or> shared (warmup a) = 0
      then ([EmptyLike, Warmup a, InitHandles], Inl ZeroDivisionError)
      else ([EmptyLike, Warmup a, InitHandles, Launch 0], Inr (empty_like x ystride garbage)))
     \<and> GetDeviceProperties \<notin> set (fst (softmax props warmup ystride garbage x))"
  using softmax_no_rows [OF assms] by simp

theorem C5_no_rows_witness:
  "softmax dev108 warm_noshared 16 nans (zeros 0 16) =
     ([EmptyLike, Warmup (args_of dev108 (zeros 0 16) (empty_like (zeros 0 16) 16 nans)),
       InitHandles], Inl ZeroDivisionError)"
  using C5_no_rows [of "zeros 0 16" 16 "args_of dev108 (zeros 0 16) (empty_like (zeros 0 16) 16 nans)"
      dev108 16 nans warm_noshared]
  by (simp add: zeros_def warm_noshared_def)

section \<open>The kernel\<close>

subsection \<open>The rows of an instance\<close>

lemma tl_range_set:
  "0 < s \<Longrightarrow> r \<in> set (tl_range i n s) \<longleftrightarrow> i \<le> r \<and> r < n \<and> r mod s = i mod s"
proof (induction i n s rule: tl_range.induct)
  case (1 i n s)
  show ?case
  proof (cases "n \<le> i")
    case True
    then show ?thesis by (subst tl_range.simps) auto
  next
    case False
    have ih: "r \<in> set (tl_range (i + s) n s) \<longleftrightarrow> i + s \<le> r \<and> r < n \<and> r mod s = (i + s) mod s"
      using 1 False by simp
    have "r \<in> set (tl_range i n s) \<longleftrightarrow> r = i \<or> r \<in> set (tl_range (i + s) n s)"
      using False 1(2) by (subst tl_range.simps) simp
    also have "\<dots> \<longleftrightarrow> i \<le> r \<and> r < n \<and> r mod s = i mod s"
    proof -
      have "i \<le> r \<Longrightarrow> r mod s = i mod s \<Longrightarrow> r \<noteq> i \<Longrightarrow> i + s \<le> r"
      proof -
        assume a: "i \<le> r" "r mod s = i mod s" "r \<noteq> i"
        then have "s dvd (r - i)" by (metis mod_eq_dvd_iff_nat)
        moreover have "0 < r - i" using a by simp
        ultimately have "s \<le> r - i" by (rule dvd_imp_le)
        then show ?thesis using a by simp
      qed
      then show ?thesis using False ih by auto
    qed
    finally show ?thesis .
  qed
qed

lemma tl_range_sorted: "sorted_wrt (<) (tl_range i n s)"
proof (induction i n s rule: tl_range.induct)
  case (1 i n s)
  show ?case
  proof (cases "s = 0 \<or> n \<le> i")
    case True
    then show ?thesis by (subst tl_range.simps) simp
  next
    case False
    then have "\<forall>r \<in> set (tl_range (i + s) n s). i < r"
      using tl_range_set [of s _ "i + s" n] by auto
    then show ?thesis using False 1 by (subst tl_range.simps) simp
  qed
qed

lemma fold_concat': "fold f (concat xss) = fold (fold f) xss"
  by (induction xss) simp_all

lemma softmax_kernel_fold:
  "softmax_kernel a xin pid nprog = fold (process_row a xin) (tl_range pid (n_rows a) nprog)"
  by (rule ext) (simp add: softmax_kernel_def Let_def)

lemma launch_rows:
  "launch a nprog xin yout =
     fold (process_row a xin) (concat (map (\<lambda>pid. tl_range pid (n_rows a) nprog) [0..<nprog])) yout"
  by (simp add: launch_def softmax_kernel_fold fold_concat' fold_map comp_def)

lemma set_all_rows:
  "0 < nprog \<Longrightarrow>
   set (concat (map (\<lambda>pid. tl_range pid n nprog) [0..<nprog])) = {..<n}"
proof (intro set_eqI iffI)
  fix r assume "r \<in> set (concat (map (\<lambda>pid. tl_range pid n nprog) [0..<nprog]))"
    and "0 < nprog"
  then show "r \<in> {..<n}" by (auto simp add: tl_range_set)
next
  fix r assume r: "r \<in> {..<n}" and P: "0 < nprog"
  then have "r mod nprog < nprog \<and> r \<in> set (tl_range (r mod nprog) n nprog)"
    by (simp add: tl_range_set)
  then show "r \<in> set (concat (map (\<lambda>pid. tl_range pid n nprog) [0..<nprog]))"
    by auto
qed

lemma tl_range_filter:
  assumes "i < P"
  shows "tl_range i n P = filter (\<lambda>r. r mod P = i) [0..<n]"
proof (rule sorted_distinct_set_unique)
  have "sorted_wrt (<) (tl_range i n P)" by (rule tl_range_sorted)
  then show "sorted (tl_range i n P)" "distinct (tl_range i n P)"
    by (simp_all add: strict_sorted_iff)
  show "sorted (filter (\<lambda>r. r mod P = i) [0..<n])" by (simp add: sorted_wrt_filter)
  show "distinct (filter (\<lambda>r. r mod P = i) [0..<n])" by simp
  have P: "0 < P" using assms by simp
  show "set (tl_range i n P) = set (filter (\<lambda>r. r mod P = i) [0..<n])"
  proof (intro set_eqI iffI)
    fix r assume "r \<in> set (tl_range i n P)"
    then show "r \<in> set (filter (\<lambda>r. r mod P = i) [0..<n])"
      using assms P by (simp add: tl_range_set)
  next
    fix r assume "r \<in> set (filter (\<lambda>r. r mod P = i) [0..<n])"
    then have r: "r < n" "r mod P = i" by simp_all
    have "i \<le> r" using r(2) mod_less_eq_dividend [of r P] by simp
    then show "r \<in> set (tl_range i n P)"
      using assms P r by (simp add: tl_range_set)
  qed
qed

lemma distinct_concat_upt:
  assumes "\<And>i. i < k \<Longrightarrow> distinct (f i)"
    and "\<And>i j. i < j \<Longrightarrow> j < k \<Longrightarrow> set (f i) \<inter> set (f j) = {}"
  shows "distinct (concat (map f [0..<k]))"
  using assms
proof (induction k)
  case 0
  show ?case by simp
next
  case (Suc k)
  have "distinct (concat (map f [0..<k]))"
    using Suc.prems by (intro Suc.IH) simp_all
  moreover have "distinct (f k)" using Suc.prems(1) by simp
  moreover have "set (concat (map f [0..<k])) \<inter> set (f k) = {}"
  proof -
    have "\<And>i. i < k \<Longrightarrow> set (f i) \<inter> set (f k) = {}"
      using Suc.prems(2) [of _ k] by simp
    then show ?thesis by (fastforce simp add: disjoint_iff)
  qed
  ultimately show ?case by simp
qed

lemma count_list_distinct: "distinct xs \<Longrightarrow> x \<in> set xs \<Longrightarrow> count_list xs x = 1"
  by (induction xs) (auto simp add: count_list_0_iff)

lemma all_rows_distinct:
  assumes "0 < P"
  shows "distinct (concat (map (\<lambda>pid. tl_range pid n P) [0..<P]))"
proof (rule distinct_concat_upt)
  fix i
  have "sorted_wrt (<) (tl_range i n P)" by (rule tl_range_sorted)
  then show "distinct (tl_range i n P)" by (simp add: strict_sorted_iff)
next
  fix i j assume "i < j" "j < P"
  then show "set (tl_range i n P) \<inter> set (tl_range j n P) = {}"
    using assms by (auto simp add: tl_range_set)
qed

lemma tl_range_0_5_2: "tl_range 0 5 2 = [0, 2, 4]"
  by (simp add: tl_range.simps)

lemma tl_range_1_5_2: "tl_range (Suc 0) 5 2 = [1, 3]"
  by (simp add: tl_range.simps)

text \<open>
  Claim C7. For at least one program, instance \<open>i\<close> of the kernel runs the loop body on
  the rows \<open>i, i + num_programs, i + 2 * num_programs, ...\<close> below \<open>n_rows\<close> in strictly
  increasing order, these are the rows below \<open>n_rows\<close> that are congruent to \<open>i\<close>, and the
  whole launch runs the loop body on the rows of its instances one after the other. Among
  the rows the launch processes, every row index below \<open>n_rows\<close> occurs exactly once and
  belongs to exactly one instance, nothing else occurs, and two distinct instances share
  no row.
\<close>

theorem C7_partition:
  assumes "1 \<le> P"
  shows "(\<forall>i<P. softmax_kernel a xin i P yout =
                  fold (process_row a xin) (tl_range i (n_rows a) P) yout
               \<and> tl_range i (n_rows a) P = filter (\<lambda>r. r mod P = i) [0..<n_rows a]
               \<and> sorted_wrt (<) (tl_range i (n_rows a) P))
       \<and> launch a P xin yout =
           fold (process_row a xin)
             (concat (map (\<lambda>i. tl_range i (n_rows a) P) [0..<P])) yout
       \<and> (\<forall>r<n_rows a.
             count_list (concat (map (\<lambda>i. tl_range i (n_rows a) P) [0..<P])) r = 1
           \<and> (\<exists>!i. i < P \<and> r \<in> set (tl_range i (n_rows a) P)))
       \<and> set (concat (map (\<lambda>i. tl_range i (n_rows a) P) [0..<P])) = {..<n_rows a}
       \<and> (\<forall>i<P. \<forall>j<P. i \<noteq> j \<longrightarrow>
             set (tl_range i (n_rows a) P) \<inter> set (tl_range j (n_rows a) P) = {})"
proof (intro conjI allI impI)
  have P: "0 < P" using assms by simp
  show "launch a P xin yout =
           fold (process_row a xin)
             (concat (map (\<lambda>i. tl_range i (n_rows a) P) [0..<P])) yout"
    by (rule launch_rows)
  show all: "set (concat (map (\<lambda>i. tl_range i (n_rows a) P) [0..<P])) = {..<n_rows a}"
    using P by (rule set_all_rows)
  {
    fix i assume i: "i < P"
    show "softmax_kernel a xin i P yout =
            fold (process_row a xin) (tl_range i (n_rows a) P) yout"
      by (simp only: softmax_kernel_fold)
    show "tl_range i (n_rows a) P = filter (\<lambda>r. r mod P = i) [0..<n_rows a]"
      using i by (rule tl_range_filter)
    show "sorted_wrt (<) (tl_range i (n_rows a) P)" by (rule tl_range_sorted)
  }
  {
    fix r assume r: "r < n_rows a"
    have "r \<in> set (concat (map (\<lambda>i. tl_range i (n_rows a) P) [0..<P]))"
      using r by (simp only: all) simp
    then show "count_list (concat (map (\<lambda>i. tl_range i (n_rows a) P) [0..<P])) r = 1"
      using all_rows_distinct [OF P] by (intro count_list_distinct)
    show "\<exists>!i. i < P \<and> r \<in> set (tl_range i (n_rows a) P)"
    proof (rule ex1I [of _ "r mod P"])
      show "r mod P < P \<and> r \<in> set (tl_range (r mod P) (n_rows a) P)"
        using P r by (simp add: tl_range_set)
    next
      fix i assume "i < P \<and> r \<in> set (tl_range i (n_rows a) P)"
      then show "i = r mod P" using P by (simp add: tl_range_set)
    qed
  }
  {
    fix i j assume "i < P" "j < P" "i \<noteq> j"
    then show "set (tl_range i (n_rows a) P) \<inter> set (tl_range j (n_rows a) P) = {}"
      using P by (auto simp add: tl_range_set)
  }
qed

theorem C7_partition_witness:
  "(1::nat) \<le> 2
   \<and> softmax_kernel (args_2x3\<lparr>n_rows := 5\<rparr>) (\<lambda>p. Fin 0) 1 2 nans =
       fold (process_row (args_2x3\<lparr>n_rows := 5\<rparr>) (\<lambda>p. Fin 0)) [1, 3] nans
   \<and> launch (args_2x3\<lparr>n_rows := 5\<rparr>) 2 (\<lambda>p. Fin 0) nans =
       fold (process_row (args_2x3\<lparr>n_rows := 5\<rparr>) (\<lambda>p. Fin 0)) [0, 2, 4, 1, 3] nans
   \<and> count_list [0, 2, 4, 1, 3] (3::nat) = 1"
proof -
  have n: "n_rows (args_2x3\<lparr>n_rows := 5\<rparr>) = 5" by simp
  have two: "[0..<2] = [0, Suc 0]" by (simp add: upt_rec)
  note c = C7_partition [of 2 "args_2x3\<lparr>n_rows := 5\<rparr>" "\<lambda>p. Fin 0" nans, unfolded n]
  have k: "softmax_kernel (args_2x3\<lparr>n_rows := 5\<rparr>) (\<lambda>p. Fin 0) 1 2 nans =
       fold (process_row (args_2x3\<lparr>n_rows := 5\<rparr>) (\<lambda>p. Fin 0)) (tl_range 1 5 2) nans"
    using c by simp
  have l: "launch (args_2x3\<lparr>n_rows := 5\<rparr>) 2 (\<lambda>p. Fin 0) nans =
       fold (process_row (args_2x3\<lparr>n_rows := 5\<rparr>) (\<lambda>p. Fin 0))
         (concat (map (\<lambda>i. tl_range i 5 2) [0..<2])) nans"
    using c by simp
  show ?thesis
    using k l by (simp add: two tl_range_0_5_2 tl_range_1_5_2)
qed

subsection \<open>What an instance writes\<close>

lemma length_col_offsets: "length (col_offsets a) = BLOCK_SIZE a"
  by (simp add: col_offsets_def tl_arange_def)

lemma load_row_eq:
  "load_row a xin r =
     map (\<lambda>c. if c < n_cols a then xin (r * input_row_stride a + c) else NInf) [0..<BLOCK_SIZE a]"
  by (rule nth_equalityI)
     (simp_all add: load_row_def tl_load_def input_ptrs_def mask_of_def col_offsets_def
        tl_arange_def Let_def)

lemma length_load_row: "length (load_row a xin r) = BLOCK_SIZE a"
  by (simp add: load_row_eq)

lemma length_numerator: "length (numerator row) = length row"
  by (simp add: numerator_def Let_def)

lemma length_softmax_output: "length (softmax_output row) = length row"
  by (simp add: softmax_output_def length_numerator)

lemma store_lanes:
  "fold (\<lambda>(p, v, b) m. if b then m(p := v) else m)
        (map (\<lambda>c. (s + c, vs c, c < nc)) [0..<B]) mem addr =
     (if \<exists>c<B. c < nc \<and> addr = s + c then vs (addr - s) else mem addr)"
proof (induction B)
  case 0
  show ?case by simp
next
  case (Suc B)
  show ?case
  proof (cases "B < nc \<and> addr = s + B")
    case True
    then show ?thesis by auto
  next
    case False
    then have "(\<exists>c<Suc B. c < nc \<and> addr = s + c) = (\<exists>c<B. c < nc \<and> addr = s + c)"
      using less_Suc_eq by auto
    then show ?thesis using False Suc by auto
  qed
qed

lemma zip_lanes:
  "length vals = B \<Longrightarrow>
   zip (map f [0..<B]) (zip vals (map g [0..<B])) = map (\<lambda>c. (f c, vals ! c, g c)) [0..<B]"
  by (rule nth_equalityI) simp_all

lemma process_row_apply:
  "process_row a xin r yout addr =
     (if \<exists>c<BLOCK_SIZE a. c < n_cols a \<and> addr = r * output_row_stride a + c
      then softmax_output (load_row a xin r) ! (addr - r * output_row_stride a)
      else yout addr)"
proof -
  have len: "length (softmax_output (load_row a xin r)) = BLOCK_SIZE a"
    by (simp add: length_softmax_output length_load_row)
  show ?thesis
    unfolding process_row_def tl_store_def output_ptrs_def mask_of_def col_offsets_def
      tl_arange_def Let_def
    by (simp only: zip_lanes [OF len] store_lanes)
qed


lemma offset_unique:
  assumes "c < (s::nat)" "c' < s" "r * s + c = r' * s + c'"
  shows "r = r' \<and> c = c'"
proof -
  have a: "(r * s + c) div s = r" using assms(1) by simp
  have b: "(r' * s + c') div s = r'" using assms(2) by simp
  have "r = r'" by (metis a b assms(3))
  then show ?thesis using assms(3) by simp
qed

lemma rows_frame:
  "(\<forall>r \<in> set rs. \<forall>c<BLOCK_SIZE a. c < n_cols a \<longrightarrow> addr \<noteq> r * output_row_stride a + c)
   \<Longrightarrow> fold (process_row a xin) rs yout addr = yout addr"
proof (induction rs arbitrary: yout)
  case Nil
  show ?case by simp
next
  case (Cons r rs)
  have "fold (process_row a xin) (r # rs) yout addr =
        fold (process_row a xin) rs (process_row a xin r yout) addr" by simp
  also have "\<dots> = process_row a xin r yout addr" using Cons by simp
  also have "\<dots> = yout addr" using Cons.prems by (auto simp add: process_row_apply)
  finally show ?case .
qed

lemma rows_value:
  assumes "n_cols a \<le> output_row_stride a"
    and "r \<in> set rs" and "c < n_cols a" and "c < BLOCK_SIZE a"
  shows "fold (process_row a xin) rs yout (r * output_row_stride a + c) =
         softmax_output (load_row a xin r) ! c"
  using assms(2)
proof (induction rs arbitrary: yout)
  case Nil
  then show ?case by simp
next
  case (Cons r0 rs)
  show ?case
  proof (cases "r \<in> set rs")
    case True
    then show ?thesis using Cons.IH by simp
  next
    case False
    then have r0: "r0 = r" using Cons.prems by simp
    have "\<forall>r' \<in> set rs. \<forall>c'<BLOCK_SIZE a. c' < n_cols a \<longrightarrow>
            r * output_row_stride a + c \<noteq> r' * output_row_stride a + c'"
    proof (intro ballI allI impI notI)
      fix r' c' assume h: "r' \<in> set rs" "c' < n_cols a"
        "r * output_row_stride a + c = r' * output_row_stride a + c'"
      have "r = r' \<and> c = c'"
        using assms(1,3) h(2,3) by (intro offset_unique [of c "output_row_stride a" c']) simp_all
      then show False using h(1) False by simp
    qed
    then have "fold (process_row a xin) rs (process_row a xin r yout) (r * output_row_stride a + c)
        = process_row a xin r yout (r * output_row_stride a + c)"
      by (rule rows_frame)
    also have "\<dots> = softmax_output (load_row a xin r) ! c"
      using assms(3,4) by (auto simp add: process_row_apply)
    finally show ?thesis using r0 by simp
  qed
qed

lemma launch_value:
  assumes "n_cols a \<le> output_row_stride a" and "0 < nprog"
    and "r < n_rows a" and "c < n_cols a" and "c < BLOCK_SIZE a"
  shows "launch a nprog xin yout (r * output_row_stride a + c) =
         softmax_output (load_row a xin r) ! c"
proof -
  have "r \<in> set (concat (map (\<lambda>pid. tl_range pid (n_rows a) nprog) [0..<nprog]))"
    using assms(2,3) by (simp only: set_all_rows) simp
  then show ?thesis
    unfolding launch_rows using assms(1,4,5) by (intro rows_value)
qed








subsection \<open>Padding lanes\<close>

lemma fmax_NInf [simp]: "fmax NInf y = y"
  by (cases y) simp_all

lemma fadd_zero [simp]: "fadd (Fin 0) y = y"
  by (cases y) simp_all

lemma fadd_NaN_right [simp]: "fadd x NaN = NaN"
  by (cases x) simp_all

lemma fsub_NaN_right [simp]: "fsub x NaN = NaN"
  by (cases x) simp_all

lemma fold_fmax_pad: "fold fmax (replicate k NInf) s = s"
  by (induction k) simp_all

lemma tl_max_pad: "tl_max (xs @ replicate k NInf) = tl_max xs"
  by (simp add: tl_max_def fold_fmax_pad del: fold_replicate)

lemma fold_fadd_zeros: "fold fadd (replicate k (Fin 0)) s = s"
  by (induction k) simp_all

lemma fold_fadd_NaN: "s = NaN \<or> NaN \<in> set ys \<Longrightarrow> fold fadd ys s = NaN"
proof (induction ys arbitrary: s)
  case Nil
  then show ?case by simp
next
  case (Cons y ys)
  show ?case
  proof (cases "s = NaN \<or> y = NaN")
    case True
    then have "fadd y s = NaN" by auto
    then show ?thesis using Cons.IH by simp
  next
    case False
    then have "NaN \<in> set ys" using Cons.prems by auto
    then show ?thesis using Cons.IH by simp
  qed
qed

lemma fmax_eq_NInf: "fmax x s = NInf \<Longrightarrow> x = NInf \<and> s = NInf"
  by (cases x; cases s) simp_all

lemma fold_fmax_NInf: "fold fmax xs s = NInf \<Longrightarrow> s = NInf \<and> (\<forall>x \<in> set xs. x = NInf)"
proof (induction xs arbitrary: s)
  case Nil
  then show ?case by simp
next
  case (Cons x xs)
  from Cons.prems have "fold fmax xs (fmax x s) = NInf" by simp
  then have "fmax x s = NInf \<and> (\<forall>x \<in> set xs. x = NInf)" by (rule Cons.IH)
  then have a: "fmax x s = NInf" and b: "\<forall>x \<in> set xs. x = NInf" by (rule conjunct1, rule conjunct2)
  from a have "x = NInf \<and> s = NInf" by (rule fmax_eq_NInf)
  with b show ?case by simp
qed

lemma numerator_pad:
  "numerator (xs @ replicate k NInf) =
     numerator xs @ replicate k (fexp (fsub NInf (tl_max xs)))"
  by (simp add: numerator_def Let_def tl_max_pad)

lemma tl_sum_append: "tl_sum (ys @ zs) = fold fadd zs (tl_sum ys)"
  by (simp add: tl_sum_def)

lemma denominator_pad:
  assumes "xs \<noteq> []"
  shows "denominator (xs @ replicate k NInf) = denominator xs"
proof -
  let ?m = "tl_max xs"
  have split: "denominator (xs @ replicate k NInf) =
      fold fadd (replicate k (fexp (fsub NInf ?m))) (denominator xs)"
    by (simp add: denominator_def numerator_pad tl_sum_append del: fold_replicate)
  show ?thesis
  proof (cases "?m = NInf \<or> ?m = NaN")
    case False
    then have "fexp (fsub NInf ?m) = Fin 0" by (cases ?m) simp_all
    then show ?thesis using split by (simp add: fold_fadd_zeros del: fold_replicate)
  next
    case True
    obtain x where x: "x \<in> set xs" using assms by (cases xs) auto
    have "fexp (fsub x ?m) = NaN"
    proof (cases "?m = NaN")
      case True
      then show ?thesis by simp
    next
      case False
      then have "?m = NInf" using True by simp
      then have "fold fmax xs NInf = NInf" by (simp add: tl_max_def)
      then have "\<forall>x \<in> set xs. x = NInf" by (rule fold_fmax_NInf [THEN conjunct2])
      then have "x = NInf" using x by simp
      then show ?thesis using \<open>?m = NInf\<close> by simp
    qed
    then have "NaN \<in> set (numerator xs)"
      using x by (force simp add: numerator_def Let_def)
    then have "denominator xs = NaN"
      by (simp add: denominator_def tl_sum_def fold_fadd_NaN)
    then show ?thesis using split by (simp add: fold_fadd_NaN del: fold_replicate)
  qed
qed

lemma softmax_output_pad:
  assumes "xs \<noteq> []"
  shows "softmax_output (xs @ replicate k NInf) =
     softmax_output xs @ replicate k (fdiv (fexp (fsub NInf (tl_max xs))) (denominator xs))"
  using assms by (simp add: softmax_output_def numerator_pad denominator_pad)

lemma load_row_split:
  "load_row a xin r =
     take (n_cols a) (load_row a xin r) @ replicate (BLOCK_SIZE a - n_cols a) NInf"
proof (rule nth_equalityI)
  show "length (load_row a xin r) =
        length (take (n_cols a) (load_row a xin r) @ replicate (BLOCK_SIZE a - n_cols a) NInf)"
    by (simp add: length_load_row)
next
  fix i assume "i < length (load_row a xin r)"
  then have i: "i < BLOCK_SIZE a" by (simp add: length_load_row)
  show "load_row a xin r ! i =
        (take (n_cols a) (load_row a xin r) @ replicate (BLOCK_SIZE a - n_cols a) NInf) ! i"
  proof (cases "i < n_cols a")
    case True
    then show ?thesis using i by (simp add: nth_append length_load_row)
  next
    case False
    then have "load_row a xin r ! i = NInf" using i by (simp add: load_row_eq)
    then show ?thesis using False i by (simp add: nth_append length_load_row)
  qed
qed

lemma take_load_row_nonempty:
  "0 < n_cols a \<Longrightarrow> 0 < BLOCK_SIZE a \<Longrightarrow> take (n_cols a) (load_row a xin r) \<noteq> []"
  by (simp add: load_row_eq)



lemma softmax_output_load_row:
  assumes "c < n_cols a" and "c < BLOCK_SIZE a"
  shows "softmax_output (load_row a xin r) ! c =
         softmax_output (take (n_cols a) (load_row a xin r)) ! c"
proof -
  let ?xs = "take (n_cols a) (load_row a xin r)"
  have ne: "?xs \<noteq> []" using assms by (intro take_load_row_nonempty) simp_all
  have len: "c < length (softmax_output ?xs)"
    using assms by (simp add: length_softmax_output length_load_row)
  have "softmax_output (load_row a xin r) =
        softmax_output (?xs @ replicate (BLOCK_SIZE a - n_cols a) NInf)"
    by (subst load_row_split) (rule refl)
  also have "\<dots> = softmax_output ?xs @
      replicate (BLOCK_SIZE a - n_cols a) (fdiv (fexp (fsub NInf (tl_max ?xs))) (denominator ?xs))"
    using ne by (rule softmax_output_pad)
  finally show ?thesis using len by (simp add: nth_append)
qed







section \<open>The result of the wrapper\<close>

subsection \<open>Rows of finite values\<close>

lemma fold_fmax_Fin: "fold fmax (map Fin vs) (Fin m) = Fin (fold max vs m)"
  by (induction vs arbitrary: m) simp_all

lemma tl_max_Fin:
  assumes "vs \<noteq> []"
  shows "tl_max (map Fin vs) = Fin (Max (set vs))"
proof -
  obtain v ws where vs: "vs = v # ws" using assms by (cases vs) auto
  have "tl_max (map Fin vs) = Fin (fold max ws v)"
    by (simp add: vs tl_max_def fold_fmax_Fin)
  also have "fold max ws v = Max (set vs)"
    by (simp only: vs Max.set_eq_fold)
  finally show ?thesis .
qed

lemma fold_fadd_Fin: "fold fadd (map Fin ws) (Fin s) = Fin (sum_list ws + s)"
  by (induction ws arbitrary: s) (simp_all add: algebra_simps)

lemma tl_sum_Fin: "tl_sum (map Fin ws) = Fin (sum_list ws)"
  by (simp add: tl_sum_def fold_fadd_Fin)

lemma numerator_Fin:
  "vs \<noteq> [] \<Longrightarrow>
   numerator (map Fin vs) = map Fin (map (\<lambda>v. exp (v - Max (set vs))) vs)"
  by (simp add: numerator_def Let_def tl_max_Fin comp_def)

lemma denominator_Fin:
  assumes "vs \<noteq> []"
  shows "denominator (map Fin vs) = Fin (\<Sum>v\<leftarrow>vs. exp (v - Max (set vs)))"
  by (simp only: denominator_def numerator_Fin [OF assms] tl_sum_Fin)

lemma exp_sum_pos:
  assumes "vs \<noteq> []"
  shows "0 < (\<Sum>v\<leftarrow>vs. exp (v - (m::real)))"
proof -
  obtain v ws where vs: "vs = v # ws" using assms by (cases vs) auto
  have "0 \<le> (\<Sum>u\<leftarrow>ws. exp (u - m))" by (rule sum_list_nonneg) auto
  moreover have "0 < exp (v - m)" by simp
  ultimately show ?thesis unfolding vs by (simp add: add_pos_nonneg)
qed

lemma softmax_output_Fin:
  assumes "vs \<noteq> []"
  shows "softmax_output (map Fin vs) = map Fin (ref_softmax vs)"
proof -
  have "(\<Sum>v\<leftarrow>vs. exp (v - Max (set vs))) \<noteq> 0"
    using exp_sum_pos [OF assms, of "Max (set vs)"] by simp
  then show ?thesis
    using assms
    by (simp add: softmax_output_def numerator_Fin denominator_Fin ref_softmax_def comp_def)
qed

lemma take_load_row_Fin:
  assumes "n_cols a \<le> BLOCK_SIZE a"
    and "\<forall>j<n_cols a. xin (r * input_row_stride a + j) = Fin (X j)"
  shows "take (n_cols a) (load_row a xin r) = map Fin (map X [0..<n_cols a])"
proof (rule nth_equalityI)
  show "length (take (n_cols a) (load_row a xin r)) = length (map Fin (map X [0..<n_cols a]))"
    using assms(1) by (simp add: length_load_row)
next
  fix j assume "j < length (take (n_cols a) (load_row a xin r))"
  then have j: "j < n_cols a" "j < BLOCK_SIZE a" by (simp_all add: length_load_row)
  then show "take (n_cols a) (load_row a xin r) ! j = map Fin (map X [0..<n_cols a]) ! j"
    using assms(2) by (simp add: load_row_eq)
qed

text \<open>
  When the planner yields at least one program, the wrapper returns a tensor of the shape of
  the input whose rows are the reference softmax of the input rows, for a matrix of finite
  entries and an output whose rows do not overlap.
\<close>

lemma launched_rows_are_softmax:
  assumes sh: "shape x = [nr, nc]"
    and st: "nc \<le> ystride"
    and fin: "\<forall>i<nr. \<forall>j<nc. elem x i j = Fin (X i j)"
    and pl: "plan props warmup x (empty_like x ystride garbage) = Inr grid"
    and grid: "0 < grid"
  shows "\<exists>ev y. softmax props warmup ystride garbage x = (ev, Inr y)
           \<and> shape y = shape x
           \<and> (\<forall>i<nr. \<forall>j<nc. elem y i j = Fin (ref_softmax (map (X i) [0..<nc]) ! j))"
proof -
  define a where "a = args_of props x (empty_like x ystride garbage)"
  define y where "y = (empty_like x ystride garbage)\<lparr>buf := launch a grid (buf x) garbage\<rparr>"
  have a: "n_cols a = nc" "n_rows a = nr" "output_row_stride a = ystride"
    "input_row_stride a = stride0 x" "nc \<le> BLOCK_SIZE a"
    using next_power_of_2_ge [of nc]
    by (simp_all add: a_def args_of_def Let_def sh empty_like_def)
  have run: "softmax props warmup ystride garbage x =
               ([EmptyLike, Warmup a, InitHandles, Launch grid], Inr y)"
    using pl by (simp add: softmax_def Let_def sh a_def y_def empty_like_def)
  have shp: "shape y = shape x" by (simp add: y_def empty_like_def)
  have rows: "\<forall>i<nr. \<forall>j<nc. elem y i j = Fin (ref_softmax (map (X i) [0..<nc]) ! j)"
  proof (intro allI impI)
    fix i j assume i: "i < nr" and j: "j < nc"
    have jB: "j < BLOCK_SIZE a" using j a(5) by simp
    have "\<forall>c<n_cols a. buf x (i * input_row_stride a + c) = Fin (X i c)"
      using fin i by (simp add: a elem_def)
    then have tk: "take (n_cols a) (load_row a (buf x) i) = map Fin (map (X i) [0..<n_cols a])"
      using a(5) by (intro take_load_row_Fin) (simp_all add: a)
    then have tk': "take nc (load_row a (buf x) i) = map Fin (map (X i) [0..<nc])"
      by (simp only: a)
    have ne: "map (X i) [0..<nc] \<noteq> []" using j by simp
    have "elem y i j = launch a grid (buf x) garbage (i * output_row_stride a + j)"
      by (simp add: y_def elem_def empty_like_def a)
    also have "\<dots> = softmax_output (load_row a (buf x) i) ! j"
      using st grid i j jB by (intro launch_value) (simp_all add: a)
    also have "\<dots> = softmax_output (take (n_cols a) (load_row a (buf x) i)) ! j"
      using j jB by (intro softmax_output_load_row) (simp_all add: a)
    also have "\<dots> = softmax_output (map Fin (map (X i) [0..<nc])) ! j"
      by (simp only: a tk')
    also have "\<dots> = map Fin (ref_softmax (map (X i) [0..<nc])) ! j"
      by (simp only: softmax_output_Fin [OF ne])
    also have "\<dots> = Fin (ref_softmax (map (X i) [0..<nc]) ! j)"
      using j by (simp add: ref_softmax_def)
    finally show "elem y i j = Fin (ref_softmax (map (X i) [0..<nc]) ! j)" .
  qed
  from run shp rows show ?thesis by blast
qed

subsection \<open>An unwritten result\<close>

lemma ref_softmax_zeros:
  "0 < n \<Longrightarrow> ref_softmax (replicate n 0) = replicate n (1 / real n)"
  by (simp add: ref_softmax_def sum_list_replicate)

text \<open>
  Claim C1. The claim asks that for every matrix the result has the shape of the input and
  each of its rows is the reference softmax of the input row. The wrapper does otherwise
  when the occupancy computes to zero: for a 4 by 4096 matrix of zeros whose kernel needs 255
  registers per thread it launches an empty grid and returns the allocated buffer with no
  element written, so the element at row 0 and column 0 is whatever the allocation held,
  while the reference softmax of a row of 4096 zeros is \<open>1 / 4096\<close> there.
\<close>

theorem C1_unwritten_output:
  "softmax dev108 warm255 4096 nans (zeros 4 4096) =
     ([EmptyLike, Warmup (args_of dev108 (zeros 4 4096) (empty_like (zeros 4 4096) 4096 nans)),
       InitHandles, Launch 0],
      Inr (empty_like (zeros 4 4096) 4096 nans))
   \<and> shape (empty_like (zeros 4 4096) 4096 nans) = [4, 4096]
   \<and> elem (zeros 4 4096) 0 0 = Fin 0
   \<and> elem (empty_like (zeros 4 4096) 4096 nans) 0 0 = NaN
   \<and> ref_softmax (replicate 4096 0) ! 0 = 1 / 4096"
proof -
  have "programs_per_sm dev108
          (warm255 (args_of dev108 (zeros 4 4096) (empty_like (zeros 4 4096) 4096 nans)))
          (num_wraps (args_of dev108 (zeros 4 4096) (empty_like (zeros 4 4096) 4096 nans))) = Inr 0"
    by (simp add: programs_per_sm_def floordiv_def dev108_def warm255_def args_of_def Let_def
        zeros_def next_power_of_2_4096 choose_num_wraps_def)
  then have "softmax dev108 warm255 4096 nans (zeros 4 4096) =
     ([EmptyLike, Warmup (args_of dev108 (zeros 4 4096) (empty_like (zeros 4 4096) 4096 nans)),
       InitHandles, Launch 0],
      Inr (empty_like (zeros 4 4096) 4096 nans))"
    by (intro softmax_zero_occupancy) (simp_all add: zeros_def)
  moreover have "shape (empty_like (zeros 4 4096) 4096 nans) = [4, 4096]"
    by (simp add: empty_like_def zeros_def)
  moreover have "elem (zeros 4 4096) 0 0 = Fin 0"
    by (simp add: elem_def zeros_def)
  moreover have "elem (empty_like (zeros 4 4096) 4096 nans) 0 0 = NaN"
    by (simp add: elem_def empty_like_def nans_def)
  moreover have "ref_softmax (replicate 4096 0) ! 0 = 1 / 4096"
    by (simp add: ref_softmax_zeros)
  ultimately show ?thesis by (intro conjI)
qed

end
